theory Spec2Isabelle
  imports
    Complex_Main
    "HOL-Library.Multiset"
    "HOL-Library.Sublist"
    "HOL-Library.Char_ord"
    "HOL-Library.List_Lexorder"
    "HOL-Library.Product_Lexorder"
begin

section \<open>The jammed-vessels dashboard (streamlit2.py)\<close>

text \<open>
  The script is one top-to-bottom Streamlit page. Its analytical part is embedded here:
  the run folder and the file names of \<^verbatim>\<open>save_run\<close>, the reduction of a snapshot to
  one row per vessel, the set algebra on two reduced runs, the sidebar alerts, the
  stability and persistence metrics and the trend table. Widgets and charts only
  display these values and are left out.
\<close>

subsection \<open>Tables\<close>

text \<open>
  A data frame is the list of its rows in index order. The columns the script reads are
  \<^verbatim>\<open>vesselid\<close> (integer), \<^verbatim>\<open>eez_overall\<close> (a string, or null: \<open>None\<close>) and
  \<^verbatim>\<open>timestamp\<close> (an instant, here the number of time units since some epoch); every
  other column of \<^verbatim>\<open>SELECT *\<close> (latitude, longitude, ...) rides along in the record's
  extension slot. Vessel id and timestamp are never null, as the table's schema has
  them. A file read back with \<^verbatim>\<open>pd.read_csv\<close> holds its timestamps as text in the one
  format \<^verbatim>\<open>to_csv\<close> wrote them in, which sorts as the instants do.
\<close>

record row =
  vesselid :: int
  eez_overall :: "string option"
  timestamp :: int

type_synonym 'a frame = "'a row_scheme list"

datatype error = TypeError | ValueError | KeyError

subsection \<open>Pandas operations used by the script\<close>

text \<open>
  \<^verbatim>\<open>df.sort_values(col)\<close> is called without \<^verbatim>\<open>kind\<close>, so pandas sorts with its default
  \<^verbatim>\<open>quicksort\<close>, which is documented as not stable (only \<^verbatim>\<open>mergesort\<close> and
  \<^verbatim>\<open>stable\<close> are). What the call guarantees is that the result holds the same rows,
  ascending by the column; the order among rows with equal keys is not fixed. The
  model is therefore the relation between a frame and every result the call may give.
\<close>

definition sort_values :: "('r \<Rightarrow> 'k::linorder) \<Rightarrow> 'r list \<Rightarrow> 'r list \<Rightarrow> bool" where
  "sort_values col df out \<longleftrightarrow> mset out = mset df \<and> sorted (map col out)"

text \<open>
  \<^verbatim>\<open>.groupby(col, as_index=False).tail(1)\<close>: the last row of every group, in the order
  the rows have in the frame.
\<close>

fun groupby_tail :: "('r \<Rightarrow> 'k) \<Rightarrow> 'r list \<Rightarrow> 'r list" where
  "groupby_tail col [] = []"
| "groupby_tail col (r # rs) =
     (if col r \<in> set (map col rs) then groupby_tail col rs else r # groupby_tail col rs)"

text \<open>
  \<^verbatim>\<open>.drop_duplicates("vesselid")\<close> (keep='first'): a row stays when no earlier row has
  its vessel id. \<open>seen\<close> holds the ids met so far.
\<close>

fun keep_first :: "int list \<Rightarrow> 'a frame \<Rightarrow> 'a frame" where
  "keep_first seen [] = []"
| "keep_first seen (r # rs) =
     (if vesselid r \<in> set seen then keep_first seen rs
      else r # keep_first (vesselid r # seen) rs)"

definition drop_duplicates :: "'a frame \<Rightarrow> 'a frame" where
  "drop_duplicates df = keep_first [] df"

text \<open>
  \<^verbatim>\<open>.groupby("vesselid").size().reset_index(name="appearances")\<close>: one line per vessel
  id, ascending by id (groupby sorts its keys), with the number of rows of that id.
\<close>

definition groupby_size :: "'a frame \<Rightarrow> (int \<times> nat) list" where
  "groupby_size df =
     map (\<lambda>v. (v, length (filter (\<lambda>r. vesselid r = v) df))) (sort (remdups (map vesselid df)))"

text \<open>The slice \<^verbatim>\<open>xs[-n:]\<close>; \<^verbatim>\<open>xs[-0:]\<close> is the whole list.\<close>

definition last_n :: "nat \<Rightarrow> 'x list \<Rightarrow> 'x list" where
  "last_n n xs = (if n = 0 then xs else drop (length xs - n) xs)"

subsection \<open>Run files\<close>

text \<open>
  \<^verbatim>\<open>datetime.now()\<close> is a naive date-time; Python compares such values field by
  field, which \<open>dt_tuple\<close> with the lexicographic order on tuples expresses.
\<close>

record datetime =
  year :: nat
  month :: nat
  day :: nat
  hour :: nat
  minute :: nat
  second :: nat

definition dt_tuple :: "datetime \<Rightarrow> nat \<times> nat \<times> nat \<times> nat \<times> nat \<times> nat" where
  "dt_tuple d = (year d, month d, day d, hour d, minute d, second d)"

definition is_leap :: "nat \<Rightarrow> bool" where
  "is_leap y \<longleftrightarrow> y mod 4 = 0 \<and> (y mod 100 \<noteq> 0 \<or> y mod 400 = 0)"

definition days_in_month :: "nat \<Rightarrow> nat \<Rightarrow> nat" where
  "days_in_month y m =
     (if m = 2 then (if is_leap y then 29 else 28)
      else if m \<in> {4, 6, 9, 11} then 30 else 31)"

text \<open>The values the \<^verbatim>\<open>datetime\<close> constructor accepts.\<close>

definition is_datetime :: "datetime \<Rightarrow> bool" where
  "is_datetime d \<longleftrightarrow>
     1 \<le> year d \<and> year d \<le> 9999 \<and> 1 \<le> month d \<and> month d \<le> 12 \<and>
     1 \<le> day d \<and> day d \<le> days_in_month (year d) (month d) \<and>
     hour d < 24 \<and> minute d < 60 \<and> second d < 60"

definition digit_char :: "nat \<Rightarrow> char" where
  "digit_char n = char_of (48 + n)"

text \<open>The last \<open>w\<close> decimal digits of \<open>n\<close>, zero-padded: \<^verbatim>\<open>%m\<close>, \<^verbatim>\<open>%d\<close>, ... with \<open>w = 2\<close>.\<close>

fun zero_pad :: "nat \<Rightarrow> nat \<Rightarrow> string" where
  "zero_pad 0 n = []"
| "zero_pad (Suc w) n = zero_pad w (n div 10) @ [digit_char (n mod 10)]"

text \<open>
  \<^verbatim>\<open>strftime("%Y%m%d_%H%M%S")\<close>. \<^verbatim>\<open>%Y\<close> is written with four digits, which is what
  every platform prints from the year 1000 on.
\<close>

definition strftime :: "datetime \<Rightarrow> string" where
  "strftime d =
     zero_pad 4 (year d) @ zero_pad 2 (month d) @ zero_pad 2 (day d) @ ''_'' @
     zero_pad 2 (hour d) @ zero_pad 2 (minute d) @ zero_pad 2 (second d)"

definition RUN_FOLDER :: string where
  "RUN_FOLDER = ''runs''"

definition path_join :: "string \<Rightarrow> string \<Rightarrow> string" where
  "path_join a b = a @ ''/'' @ b"

text \<open>
  A run file is its path together with the table \<^verbatim>\<open>pd.read_csv\<close> reads from it; the
  run folder is the list of its files in whatever order the file system lists them.
  \<^verbatim>\<open>save_run\<close> takes the clock reading as an argument and returns the new folder: a
  file of the same name is replaced.
\<close>

type_synonym 'a run_file = "string \<times> 'a frame"

definition run_filename :: "datetime \<Rightarrow> string" where
  "run_filename now = path_join RUN_FOLDER (''run_'' @ strftime now @ ''.csv'')"

definition save_run :: "datetime \<Rightarrow> 'a frame \<Rightarrow> 'a run_file list \<Rightarrow> string \<times> 'a run_file list" where
  "save_run now df folder =
     (let filename = run_filename now
      in (filename, (filename, df) # filter (\<lambda>f. fst f \<noteq> filename) folder))"

definition read_csv :: "'a run_file \<Rightarrow> 'a frame" where
  "read_csv f = snd f"

text \<open>\<^verbatim>\<open>glob.glob("runs/run_*.csv")\<close>: the star matches any text without a slash.\<close>

definition glob_match :: "string \<Rightarrow> bool" where
  "glob_match p \<longleftrightarrow>
     prefix (path_join RUN_FOLDER ''run_'') p \<and> suffix ''.csv'' p \<and>
     CHR ''/'' \<notin> set (drop (length RUN_FOLDER + 1) p)"

definition run_files :: "'a run_file list \<Rightarrow> 'a run_file list" where
  "run_files folder = sort_key fst (filter (\<lambda>f. glob_match (fst f)) folder)"

subsection \<open>Reading the save time back from a file name\<close>

definition basename :: "string \<Rightarrow> string" where
  "basename p = rev (takeWhile (\<lambda>c. c \<noteq> CHR ''/'') (rev p))"

text \<open>
  \<^verbatim>\<open>s.replace(old, new)\<close> for a non-empty \<open>old\<close> (both call sites pass a constant):
  every occurrence, left to right, without overlap.
\<close>

function str_replace :: "string \<Rightarrow> string \<Rightarrow> string \<Rightarrow> string" where
  "str_replace old new [] = []"
| "str_replace old new (c # cs) =
     (if old \<noteq> [] \<and> prefix old (c # cs)
      then new @ str_replace old new (drop (length old) (c # cs))
      else c # str_replace old new cs)"
  by pat_completeness auto
termination
  by (relation "measure (\<lambda>(old, new, s). length s)") (auto simp: neq_Nil_conv)

definition is_digit :: "char \<Rightarrow> bool" where
  "is_digit c \<longleftrightarrow> 48 \<le> (of_char c :: nat) \<and> (of_char c :: nat) \<le> 57"

definition number_of :: "string \<Rightarrow> nat option" where
  "number_of s =
     (if s \<noteq> [] \<and> list_all is_digit s
      then Some (foldl (\<lambda>a c. 10 * a + (of_char c - 48)) 0 s) else None)"

text \<open>
  \<^verbatim>\<open>datetime.strptime(s, "%Y%m%d_%H%M%S")\<close> on the fixed-width texts that
  \<^verbatim>\<open>strftime\<close> writes: four digits, two, two, an underscore, two, two, two, and the
  fields must form a date-time. Anything else is a \<^verbatim>\<open>ValueError\<close> here (Python also
  reads some fields written without their leading zero; \<^verbatim>\<open>save_run\<close> never writes
  such a name).
\<close>

definition strptime :: "string \<Rightarrow> error + datetime" where
  "strptime s =
     (if length s = 15 \<and> s ! 8 = CHR ''_'' then
        (case those (map number_of
                [take 4 s, take 2 (drop 4 s), take 2 (drop 6 s),
                 take 2 (drop 9 s), take 2 (drop 11 s), take 2 (drop 13 s)]) of
           Some [y, m, d, H, M, S] \<Rightarrow>
             (let t = \<lparr>year = y, month = m, day = d, hour = H, minute = M, second = S\<rparr>
              in if is_datetime t then Inr t else Inl ValueError)
         | _ \<Rightarrow> Inl ValueError)
      else Inl ValueError)"

definition run_time_of :: "string \<Rightarrow> error + datetime" where
  "run_time_of f = strptime (str_replace ''.csv'' [] (str_replace ''run_'' [] (basename f)))"

subsection \<open>Current and previous run\<close>

text \<open>
  \<^verbatim>\<open>df.sort_values("timestamp").groupby("vesselid", as_index=False).tail(1)\<close>, applied
  to the fetched snapshot (\<^verbatim>\<open>current_run\<close>) and to the previous file
  (\<^verbatim>\<open>previous_run\<close>).
\<close>

inductive current_run :: "'a frame \<Rightarrow> 'a frame \<Rightarrow> bool" where
  "sort_values timestamp df s \<Longrightarrow> current_run df (groupby_tail vesselid s)"

text \<open>
  The result is the pair \<^verbatim>\<open>(previous_run, first_run)\<close>; the empty frame is
  \<^verbatim>\<open>pd.DataFrame(columns=current_run.columns)\<close>.
\<close>

inductive previous_run :: "'a run_file list \<Rightarrow> bool \<Rightarrow> 'a frame \<times> bool \<Rightarrow> bool" where
  "length rf > 1 \<and> compare_prev \<Longrightarrow>
     current_run (read_csv (rf ! (length rf - 2))) out \<Longrightarrow>
     previous_run rf compare_prev (out, False)"
| "\<not> (length rf > 1 \<and> compare_prev) \<Longrightarrow> previous_run rf compare_prev ([], True)"

subsection \<open>New and resolved events\<close>

definition vessels :: "'a frame \<Rightarrow> int set" where
  "vessels run = set (map vesselid run)"

definition regions :: "'a frame \<Rightarrow> string option set" where
  "regions run = set (map eez_overall run)"

definition new_vessels :: "'a frame \<Rightarrow> 'a frame \<Rightarrow> int set" where
  "new_vessels cur prev = vessels cur - vessels prev"

definition new_regions :: "'a frame \<Rightarrow> 'a frame \<Rightarrow> string option set" where
  "new_regions cur prev = regions cur - regions prev"

definition resolved_regions :: "'a frame \<Rightarrow> 'a frame \<Rightarrow> string option set" where
  "resolved_regions cur prev = regions prev - regions cur"

subsection \<open>Smart alerts\<close>

text \<open>
  The three sidebar messages: \<^verbatim>\<open>st.sidebar.warning\<close> (new region),
  \<^verbatim>\<open>st.sidebar.success\<close> (region resolved) and \<^verbatim>\<open>st.sidebar.error\<close> (increase in
  jammed vessels, with \<^verbatim>\<open>int(increase_pct)\<close>).
\<close>

datatype alert =
  RegionAppeared "string set"
| RegionResolved "string set"
| VesselSurge int

text \<open>
  \<^verbatim>\<open>', '.join(rs)\<close> accepts strings only: a null region in the set raises
  \<^verbatim>\<open>TypeError\<close>. The order of the joined names is the set's, so the message is kept as
  the set of names.
\<close>

definition join_regions :: "string option set \<Rightarrow> error + string set" where
  "join_regions rs = (if None \<in> rs then Inl TypeError else Inr (the ` rs))"

definition increase_pct :: "nat \<Rightarrow> nat \<Rightarrow> real" where
  "increase_pct n_cur n_prev = (real n_cur - real n_prev) / real n_prev * 100"

definition surge_alert :: "'a frame \<Rightarrow> 'a frame \<Rightarrow> alert list" where
  "surge_alert cur prev =
     (if vessels prev \<noteq> {} \<and> card (vessels cur) > card (vessels prev) then
        (if increase_pct (card (vessels cur)) (card (vessels prev)) > 10
         then [VesselSurge \<lfloor>increase_pct (card (vessels cur)) (card (vessels prev))\<rfloor>]
         else [])
      else [])"

definition region_alert :: "(string set \<Rightarrow> alert) \<Rightarrow> string option set \<Rightarrow> error + alert list" where
  "region_alert mk rs =
     (if rs \<noteq> {} then
        (case join_regions rs of Inl e \<Rightarrow> Inl e | Inr names \<Rightarrow> Inr [mk names])
      else Inr [])"

definition smart_alerts :: "bool \<Rightarrow> 'a frame \<Rightarrow> 'a frame \<Rightarrow> error + alert list" where
  "smart_alerts first_run cur prev =
     (if \<not> first_run then
        (case region_alert RegionAppeared (new_regions cur prev) of
           Inl e \<Rightarrow> Inl e
         | Inr a1 \<Rightarrow>
             (case region_alert RegionResolved (resolved_regions cur prev) of
                Inl e \<Rightarrow> Inl e
              | Inr a2 \<Rightarrow> Inr (a1 @ a2 @ surge_alert cur prev)))
      else Inr [])"

subsection \<open>Key metrics and the new-vessels button\<close>

definition key_metrics :: "'a frame \<Rightarrow> 'a frame \<Rightarrow> nat \<times> nat \<times> nat" where
  "key_metrics cur prev =
     (card (vessels cur), card (new_vessels cur prev), card (regions cur))"

datatype view =
  Baseline_info
| No_new_vessels
| Vessel_table "(int \<times> string option \<times> int) list"

definition show_new_jammed_vessels :: "bool \<Rightarrow> 'a frame \<Rightarrow> 'a frame \<Rightarrow> view" where
  "show_new_jammed_vessels first_run cur prev =
     (if first_run then Baseline_info
      else
        (let new_df = filter (\<lambda>r. vesselid r \<in> new_vessels cur prev) cur
         in if new_df = [] then No_new_vessels
            else Vessel_table (map (\<lambda>r. (vesselid r, eez_overall r, timestamp r)) new_df)))"

subsection \<open>Model consistency metrics\<close>

definition stability_pct :: "string option set \<Rightarrow> string option set \<Rightarrow> real" where
  "stability_pct current_regions previous_regions =
     (if previous_regions \<noteq> {}
      then real (card (current_regions \<inter> previous_regions)) / real (card previous_regions) * 100
      else 100)"

text \<open>The metric is shown only when \<^verbatim>\<open>first_run\<close> is false.\<close>

definition detection_stability :: "bool \<Rightarrow> 'a frame \<Rightarrow> 'a frame \<Rightarrow> real option" where
  "detection_stability first_run cur prev =
     (if \<not> first_run then Some (stability_pct (regions cur) (regions prev)) else None)"

text \<open>
  \<^verbatim>\<open>pd.concat\<close> of the de-duplicated files of the window, then the group sizes.
  \<^verbatim>\<open>pd.concat([])\<close> raises \<^verbatim>\<open>ValueError\<close>.
\<close>

definition persistence :: "'a run_file list \<Rightarrow> error + (int \<times> nat) list" where
  "persistence window =
     (if window = [] then Inl ValueError
      else Inr (groupby_size (concat (map (\<lambda>f. drop_duplicates (read_csv f)) window))))"

definition event_persistence :: "nat \<Rightarrow> 'a run_file list \<Rightarrow> error + (int \<times> nat) list" where
  "event_persistence last_n_runs rf = persistence (last_n last_n_runs rf)"

subsection \<open>Multi-run trend\<close>

record trend_point =
  run_time :: datetime
  jammed_vessels :: nat

definition trend_runs :: "nat \<Rightarrow> 'a run_file list \<Rightarrow> 'a run_file list" where
  "trend_runs last_n_runs rf = last_n (min last_n_runs (length rf)) rf"

text \<open>The loop that fills \<^verbatim>\<open>trend_data\<close>; a file name that does not parse stops it.\<close>

fun trend_data :: "'a run_file list \<Rightarrow> error + trend_point list" where
  "trend_data [] = Inr []"
| "trend_data (f # fs) =
     (case run_time_of (fst f) of
        Inl e \<Rightarrow> Inl e
      | Inr t \<Rightarrow>
          (case trend_data fs of
             Inl e \<Rightarrow> Inl e
           | Inr ps \<Rightarrow>
               Inr (\<lparr>run_time = t, jammed_vessels = length (drop_duplicates (read_csv f))\<rparr> # ps)))"

text \<open>
  \<^verbatim>\<open>pd.DataFrame(trend_data).sort_values("run_time")\<close>; a frame built from the empty
  list has no column \<^verbatim>\<open>run_time\<close>, and sorting it raises \<^verbatim>\<open>KeyError\<close>.
\<close>

inductive trend_df :: "'a run_file list \<Rightarrow> error + trend_point list \<Rightarrow> bool" where
  "trend_data window = Inl e \<Longrightarrow> trend_df window (Inl e)"
| "trend_data window = Inr [] \<Longrightarrow> trend_df window (Inl KeyError)"
| "trend_data window = Inr ps \<Longrightarrow> ps \<noteq> [] \<Longrightarrow>
     sort_values (\<lambda>p. dt_tuple (run_time p)) ps out \<Longrightarrow> trend_df window (Inr out)"

subsection \<open>The reduction as the specification words it\<close>

text \<open>
  For comparison with \<open>current_run\<close>: of the events of vessel \<open>v\<close>, the one with the
  greatest timestamp, the last in the snapshot among equals.
\<close>

definition last_seen_latest :: "'a frame \<Rightarrow> int \<Rightarrow> 'a row_scheme option" where
  "last_seen_latest df v =
     fold (\<lambda>e best. case best of
                      None \<Rightarrow> Some e
                    | Some b \<Rightarrow> if timestamp b \<le> timestamp e then Some e else Some b)
          (filter (\<lambda>e. vesselid e = v) df) None"

text \<open>
  The persistence count as the specification words it: the number of files of the
  window that contain vessel \<open>v\<close>.
\<close>

definition appearances :: "'a run_file list \<Rightarrow> int \<Rightarrow> nat" where
  "appearances window v = length (filter (\<lambda>f. v \<in> vessels (read_csv f)) window)"

text \<open>
  The clock readings \<^verbatim>\<open>save_run\<close> is modelled for: date-times from the year 1000 on
  (\<^verbatim>\<open>datetime.now()\<close> returns no other), and the folders that hold only files named by
  \<^verbatim>\<open>save_run\<close> at such a reading.
\<close>

definition clock_datetime :: "datetime \<Rightarrow> bool" where
  "clock_datetime d \<longleftrightarrow> is_datetime d \<and> 1000 \<le> year d"

definition saved_by_save_run :: "'a run_file list \<Rightarrow> bool" where
  "saved_by_save_run folder \<longleftrightarrow>
     (\<forall>f\<in>set folder. \<exists>d. clock_datetime d \<and> fst f = run_filename d)"

subsection \<open>Sample data\<close>

definition ev :: "int \<Rightarrow> string option \<Rightarrow> int \<Rightarrow> row" where
  "ev v r t = \<lparr>vesselid = v, eez_overall = r, timestamp = t\<rparr>"

text \<open>A snapshot with two events of vessel 1, and the run reduced from it.\<close>

definition snapshot1 :: "row list" where
  "snapshot1 = [ev 1 (Some ''EEZ_A'') 5, ev 2 (Some ''EEZ_B'') 3, ev 1 (Some ''EEZ_C'') 7]"

definition reduced1 :: "row list" where
  "reduced1 = [ev 2 (Some ''EEZ_B'') 3, ev 1 (Some ''EEZ_C'') 7]"



text \<open>Three run files; vessel 7 is in the first and the third.\<close>

definition window3 :: "unit run_file list" where
  "window3 =
     [(''runs/run_20240101_100000.csv'', [ev 7 (Some ''EEZ_A'') 1, ev 8 (Some ''EEZ_A'') 1, ev 7 None 2]),
      (''runs/run_20240101_110000.csv'', [ev 8 (Some ''EEZ_A'') 3]),
      (''runs/run_20240101_120000.csv'', [ev 8 (Some ''EEZ_B'') 4, ev 7 (Some ''EEZ_A'') 5])]"

text \<open>
  The scenario of the specification: vessels 1, 2, 3 in EEZ_A, then vessels 1, 2, 4, 5
  with 4 and 5 in EEZ_B; and the same current run with no region recorded for 4 and 5.
\<close>

definition prev3 :: "row list" where
  "prev3 = [ev 1 (Some ''EEZ_A'') 1, ev 2 (Some ''EEZ_A'') 1, ev 3 (Some ''EEZ_A'') 1]"

definition cur4 :: "row list" where
  "cur4 = [ev 1 (Some ''EEZ_A'') 2, ev 2 (Some ''EEZ_A'') 2, ev 4 (Some ''EEZ_B'') 2,
           ev 5 (Some ''EEZ_B'') 2]"

definition cur4_null :: "row list" where
  "cur4_null = [ev 1 (Some ''EEZ_A'') 2, ev 2 (Some ''EEZ_A'') 2, ev 4 None 2, ev 5 None 2]"

text \<open>The save times of the three files of \<open>window3\<close>.\<close>

definition t10 :: datetime where
  "t10 = \<lparr>year = 2024, month = 1, day = 1, hour = 10, minute = 0, second = 0\<rparr>"

definition t11 :: datetime where
  "t11 = \<lparr>year = 2024, month = 1, day = 1, hour = 11, minute = 0, second = 0\<rparr>"

definition t12 :: datetime where
  "t12 = \<lparr>year = 2024, month = 1, day = 1, hour = 12, minute = 0, second = 0\<rparr>"

section \<open>Properties\<close>

subsection \<open>Reduction to one row per vessel\<close>

lemma groupby_tail_subset: "set (groupby_tail col xs) \<subseteq> set xs"
  by (induction xs) auto

lemma groupby_tail_keys: "col ` set (groupby_tail col xs) = col ` set xs"
  by (induction xs) auto

lemma groupby_tail_distinct: "distinct (map col (groupby_tail col xs))"
proof (induction xs)
  case Nil
  then show ?case by simp
next
  case (Cons r rs)
  have "col r \<notin> col ` set (groupby_tail col rs)" if "col r \<notin> col ` set rs"
    using that groupby_tail_subset [of col rs] by auto
  with Cons show ?case by auto
qed

lemma groupby_tail_split:
  "r \<in> set (groupby_tail col xs) \<Longrightarrow> \<exists>ys zs. xs = ys @ r # zs \<and> col r \<notin> col ` set zs"
proof (induction xs)
  case Nil
  then show ?case by simp
next
  case (Cons x xs)
  show ?case
  proof (cases "r \<in> set (groupby_tail col xs)")
    case True
    then obtain ys zs where "xs = ys @ r # zs" "col r \<notin> col ` set zs"
      using Cons.IH by blast
    then have "x # xs = (x # ys) @ r # zs \<and> col r \<notin> col ` set zs" by simp
    then show ?thesis by blast
  next
    case False
    with Cons.prems have "r = x" "col x \<notin> col ` set xs"
      by (auto split: if_splits)
    then have "x # xs = [] @ r # xs \<and> col r \<notin> col ` set xs" by simp
    then show ?thesis by blast
  qed
qed


lemma sort_values_set: "sort_values col df s \<Longrightarrow> set s = set df"
  unfolding sort_values_def by (metis set_mset_mset)






text \<open>
  Had the sort been stable (\<open>sort_key\<close> is), last-seen-wins would hold: every row
  the reduction keeps is then the event the specification's wording names.
\<close>

lemma last_filter_same: "xs \<noteq> [] \<Longrightarrow> P (last xs) \<Longrightarrow> last (filter P xs) = last xs"
  by (induction xs) (auto simp: filter_empty_conv)

lemma sorted_last_max:
  assumes "sorted (map k xs)" and "x \<in> set xs"
  shows "k x \<le> k (last xs)"
proof -
  from assms(2) obtain ys zs where split: "xs = ys @ x # zs"
    by (meson split_list)
  show ?thesis
  proof (cases "zs = []")
    case True
    with split show ?thesis by simp
  next
    case False
    then have "last xs \<in> set zs" using split by simp
    with assms(1) split show ?thesis by (simp add: sorted_append)
  qed
qed

lemma last_is_last_of_max:
  fixes k :: "'r \<Rightarrow> int"
  assumes "sorted (map k xs)" and "xs \<noteq> []"
  shows "k (last xs) = Max (k ` set xs)"
proof (rule Max_eqI [symmetric])
  show "finite (k ` set xs)" by simp
  show "k (last xs) \<in> k ` set xs" using assms(2) by simp
  fix y assume "y \<in> k ` set xs"
  then show "y \<le> k (last xs)" using sorted_last_max [OF assms(1)] by auto
qed

lemma last_sort_key:
  fixes k :: "'r \<Rightarrow> int"
  assumes "xs \<noteq> []"
  shows "last (sort_key k xs) = last (filter (\<lambda>x. k x = Max (k ` set xs)) xs)"
proof -
  let ?s = "sort_key k xs"
  let ?m = "Max (k ` set xs)"
  have ne: "?s \<noteq> []" using assms by (metis length_sort length_0_conv)
  have "k (last ?s) = Max (k ` set ?s)"
    by (rule last_is_last_of_max) (simp_all add: ne)
  then have m: "k (last ?s) = ?m" by simp
  have "last (filter (\<lambda>x. k x = ?m) ?s) = last ?s"
    using ne m by (rule last_filter_same)
  then show ?thesis by (simp add: sort_key_stable)
qed

lemma fold_latest:
  "es \<noteq> [] \<Longrightarrow>
     fold (\<lambda>e best. case best of None \<Rightarrow> Some e | Some b \<Rightarrow> if timestamp b \<le> timestamp e then Some e else Some b) es None
       = Some (last (filter (\<lambda>x. timestamp x = Max (timestamp ` set es)) es))"
proof (induction es rule: rev_induct)
  case Nil
  then show ?case by simp
next
  case (snoc e es)
  show ?case
  proof (cases "es = []")
    case True
    then show ?thesis by simp
  next
    case False
    let ?m = "Max (timestamp ` set es)"
    let ?b = "last (filter (\<lambda>x. timestamp x = ?m) es)"
    have fin: "finite (timestamp ` set es)" "timestamp ` set es \<noteq> {}"
      using False by simp_all
    have "?m \<in> timestamp ` set es" using fin by (rule Max_in)
    then have fne: "filter (\<lambda>x. timestamp x = ?m) es \<noteq> []"
      by (auto simp: filter_empty_conv)
    then have "?b \<in> set (filter (\<lambda>x. timestamp x = ?m) es)" by (rule last_in_set)
    then have tb: "timestamp ?b = ?m" by simp
    have ih: "fold (\<lambda>e best. case best of None \<Rightarrow> Some e | Some b \<Rightarrow> if timestamp b \<le> timestamp e then Some e else Some b) es None = Some ?b"
      using snoc.IH False by simp
    have mx: "Max (insert (timestamp e) (timestamp ` set es)) = max (timestamp e) ?m"
      using fin by (rule Max_insert)
    show ?thesis
    proof (cases "?m \<le> timestamp e")
      case True
      then have "max (timestamp e) ?m = timestamp e" by simp
      then show ?thesis using True by (simp add: ih tb mx)
    next
      case False
      then have "max (timestamp e) ?m = ?m" "timestamp e \<noteq> ?m" by simp_all
      then show ?thesis using False by (simp add: ih tb mx)
    qed
  qed
qed

lemma groupby_tail_is_last:
  assumes "r \<in> set (groupby_tail col xs)"
  shows "last (filter (\<lambda>e. col e = col r) xs) = r"
proof -
  obtain ys zs where "xs = ys @ r # zs" "col r \<notin> col ` set zs"
    using groupby_tail_split [OF assms] by blast
  moreover from this have "filter (\<lambda>e. col e = col r) zs = []"
    unfolding filter_empty_conv by (metis imageI)
  ultimately show ?thesis by simp
qed

lemma ne_set_nonempty: "x \<in> set xs \<Longrightarrow> xs \<noteq> []"
  by (cases xs) simp_all

lemma current_run_stable_last_seen:
  assumes "r \<in> set (groupby_tail vesselid (sort_key timestamp df))"
  shows "last_seen_latest df (vesselid r) = Some r"
proof -
  let ?v = "vesselid r"
  let ?es = "filter (\<lambda>e. vesselid e = ?v) df"
  have "r \<in> set (sort_key timestamp df)"
    using assms groupby_tail_subset [of vesselid "sort_key timestamp df"] by (rule subsetD [rotated])
  then have "r \<in> set ?es" by simp
  then have ne: "?es \<noteq> []" by (rule ne_set_nonempty)
  have "r = last (filter (\<lambda>e. vesselid e = ?v) (sort_key timestamp df))"
    by (rule groupby_tail_is_last [OF assms, symmetric])
  also have "\<dots> = last (sort_key timestamp ?es)"
    by (simp add: filter_sort)
  also have "\<dots> = last (filter (\<lambda>x. timestamp x = Max (timestamp ` set ?es)) ?es)"
    using ne by (rule last_sort_key)
  finally have "last (filter (\<lambda>x. timestamp x = Max (timestamp ` set ?es)) ?es) = r"
    by simp
  with fold_latest [OF ne] show ?thesis
    unfolding last_seen_latest_def by simp
qed

subsection \<open>De-duplication against the reduction\<close>

lemma keep_first_keys: "vesselid ` set (keep_first seen df) = vesselid ` set df - set seen"
  by (induction df arbitrary: seen) auto

lemma keep_first_subset: "set (keep_first seen df) \<subseteq> set df"
  by (induction df arbitrary: seen) auto

lemma keep_first_distinct: "distinct (map vesselid (keep_first seen df))"
proof (induction df arbitrary: seen)
  case Nil
  then show ?case by simp
next
  case (Cons r rs)
  have "vesselid r \<notin> vesselid ` set (keep_first (vesselid r # seen) rs)"
    by (simp add: keep_first_keys)
  with Cons show ?case by simp
qed

lemma vessels_drop_duplicates: "vessels (drop_duplicates df) = vessels df"
  by (simp add: vessels_def drop_duplicates_def keep_first_keys)

lemma distinct_drop_duplicates: "distinct (map vesselid (drop_duplicates df))"
  by (simp add: drop_duplicates_def keep_first_distinct)

lemma length_drop_duplicates: "length (drop_duplicates df) = card (vessels df)"
proof -
  have "card (vessels (drop_duplicates df)) = length (map vesselid (drop_duplicates df))"
    unfolding vessels_def by (rule distinct_card [OF distinct_drop_duplicates])
  then show ?thesis by (simp add: vessels_drop_duplicates)
qed

lemma count_distinct_keys:
  "distinct (map col xs) \<Longrightarrow> length (filter (\<lambda>r. col r = v) xs) = (if v \<in> col ` set xs then 1 else 0)"
proof (induction xs)
  case Nil
  then show ?case by simp
next
  case (Cons x xs)
  then show ?case by (cases "col x = v") auto
qed

lemma count_drop_duplicates:
  "length (filter (\<lambda>r. vesselid r = v) (drop_duplicates df)) = (if v \<in> vessels df then 1 else 0)"
  using count_distinct_keys [OF distinct_drop_duplicates, of v df] vessels_drop_duplicates [of df]
  by (simp add: vessels_def)


lemma current_run_length:
  assumes "current_run df out"
  shows "length out = card (vessels df)"
proof -
  from assms obtain s where s: "sort_values timestamp df s" and out: "out = groupby_tail vesselid s"
    by (auto elim: current_run.cases)
  have "card (set (map vesselid out)) = length (map vesselid out)"
    by (rule distinct_card) (simp add: out groupby_tail_distinct)
  moreover have "set (map vesselid out) = vessels df"
    using groupby_tail_keys [of vesselid s] sort_values_set [OF s] by (simp add: out vessels_def)
  ultimately show ?thesis by simp
qed

lemma current_run_vessels:
  assumes "current_run df out"
  shows "vessels out = vessels df"
proof -
  from assms obtain s where s: "sort_values timestamp df s" and out: "out = groupby_tail vesselid s"
    by (auto elim: current_run.cases)
  show ?thesis
    using groupby_tail_keys [of vesselid s] sort_values_set [OF s] by (simp add: out vessels_def)
qed

text \<open>
  C10. For every snapshot, \<^verbatim>\<open>drop_duplicates("vesselid")\<close> keeps the same set of vessel
  ids as the sort, group and take-last reduction, and as many rows: the count that
  feeds the trend and the membership that feeds persistence are the size and the key
  set of the reduced run.
\<close>

theorem drop_duplicates_agrees_with_current_run:
  "current_run df out \<Longrightarrow>
     vessels (drop_duplicates df) = vessels out \<and>
     length (drop_duplicates df) = length out \<and>
     length out = card (vessels df)"
  by (simp add: vessels_drop_duplicates current_run_vessels length_drop_duplicates current_run_length)


theorem drop_duplicates_agrees_with_current_run_witness:
  "current_run snapshot1 reduced1 \<and>
   vessels (drop_duplicates snapshot1) = vessels reduced1 \<and>
   length (drop_duplicates snapshot1) = length reduced1"
proof -
  have "sort_values timestamp snapshot1
          [ev 2 (Some ''EEZ_B'') 3, ev 1 (Some ''EEZ_A'') 5, ev 1 (Some ''EEZ_C'') 7]"
    by (simp add: sort_values_def snapshot1_def ev_def)
  from current_run.intros [OF this] have c: "current_run snapshot1 reduced1"
    by (simp add: reduced1_def ev_def)
  from drop_duplicates_agrees_with_current_run [OF c] c show ?thesis by simp
qed

subsection \<open>Event persistence\<close>

lemma groupby_size_set:
  "set (groupby_size df) = {(v, c). v \<in> vessels df \<and> c = length (filter (\<lambda>r. vesselid r = v) df)}"
  by (auto simp: groupby_size_def vessels_def)

lemma groupby_size_keys: "map fst (groupby_size df) = sorted_list_of_set (vessels df)"
proof -
  have "sort (remdups (map vesselid df)) = sorted_list_of_set (set (map vesselid df))"
    by (simp only: sorted_list_of_set_sort_remdups)
  then show ?thesis
    by (simp add: groupby_size_def comp_def vessels_def)
qed

lemma concat_count:
  "length (filter (\<lambda>r. vesselid r = v) (concat (map (\<lambda>f. drop_duplicates (read_csv f)) window)))
     = length (filter (\<lambda>f. v \<in> vessels (read_csv f)) window)"
  by (induction window) (simp_all add: count_drop_duplicates)

lemma concat_vessels:
  "vessels (concat (map (\<lambda>f. drop_duplicates (read_csv f)) window)) = (\<Union>f\<in>set window. vessels (read_csv f))"
proof -
  have "vessels (concat (map (\<lambda>f. drop_duplicates (read_csv f)) window))
      = (\<Union>f\<in>set window. vessels (drop_duplicates (read_csv f)))"
    by (auto simp: vessels_def)
  then show ?thesis by (simp add: vessels_drop_duplicates)
qed

lemma groupby_size_concat:
  "groupby_size (concat (map (\<lambda>f. drop_duplicates (read_csv f)) window))
    = map (\<lambda>v. (v, appearances window v)) (sorted_list_of_set (\<Union>f\<in>set window. vessels (read_csv f)))"
proof -
  let ?big = "concat (map (\<lambda>f. drop_duplicates (read_csv f)) window)"
  have "groupby_size ?big = map (\<lambda>v. (v, length (filter (\<lambda>r. vesselid r = v) ?big))) (sorted_list_of_set (vessels ?big))"
    unfolding groupby_size_def vessels_def by (simp only: sorted_list_of_set_sort_remdups)
  then show ?thesis
    by (simp only: concat_count concat_vessels appearances_def)
qed

lemma appearances_perm: "mset w' = mset w \<Longrightarrow> appearances w' v = appearances w v"
proof -
  assume "mset w' = mset w"
  then have "mset (filter (\<lambda>f. v \<in> vessels (read_csv f)) w') = mset (filter (\<lambda>f. v \<in> vessels (read_csv f)) w)"
    by simp
  then show ?thesis unfolding appearances_def by (metis size_mset)
qed

lemma appearances_bounds:
  "appearances w v \<le> length w" "(\<exists>f\<in>set w. v \<in> vessels (read_csv f)) \<Longrightarrow> 1 \<le> appearances w v"
proof -
  show "appearances w v \<le> length w" by (simp add: appearances_def)
  assume "\<exists>f\<in>set w. v \<in> vessels (read_csv f)"
  then have "filter (\<lambda>f. v \<in> vessels (read_csv f)) w \<noteq> []"
    by (simp add: filter_empty_conv)
  then show "1 \<le> appearances w v"
    unfolding appearances_def by (simp add: Suc_le_eq)
qed

text \<open>
  C5. For every non-empty window of run files, persistence has one line per vessel id
  that occurs in some file of the window; its count is the number of files of the
  window that contain the id, lies between 1 and the window size, and is the same for
  every reordering of the window.
\<close>

theorem persistence_counts:
  assumes "window \<noteq> []"
  shows "\<exists>p. persistence window = Inr p \<and>
           distinct (map fst p) \<and>
           (\<forall>v c. (v, c) \<in> set p \<longleftrightarrow>
              (\<exists>f\<in>set window. v \<in> vessels (read_csv f)) \<and> c = appearances window v) \<and>
           (\<forall>(v, c)\<in>set p. 1 \<le> c \<and> c \<le> length window) \<and>
           (\<forall>window'. mset window' = mset window \<longrightarrow> persistence window' = Inr p)"
proof -
  let ?p = "map (\<lambda>v. (v, appearances window v)) (sorted_list_of_set (\<Union>f\<in>set window. vessels (read_csv f)))"
  have fin: "finite (\<Union>f\<in>set window. vessels (read_csv f))"
    by (simp add: vessels_def)
  have p: "persistence window = Inr ?p"
    using assms by (simp add: persistence_def groupby_size_concat)
  have d: "distinct (map fst ?p)"
    by (simp add: comp_def)
  have m: "\<forall>v c. (v, c) \<in> set ?p \<longleftrightarrow>
              (\<exists>f\<in>set window. v \<in> vessels (read_csv f)) \<and> c = appearances window v"
    using fin by auto
  have b: "\<forall>(v, c)\<in>set ?p. 1 \<le> c \<and> c \<le> length window"
    using fin appearances_bounds [of window] by auto
  have o: "\<forall>window'. mset window' = mset window \<longrightarrow> persistence window' = Inr ?p"
  proof (intro allI impI)
    fix window' :: "'a run_file list" assume eq: "mset window' = mset window"
    then have ne: "window' \<noteq> []" using assms by auto
    have s: "set window' = set window" using eq by (metis set_mset_mset)
    have "(\<lambda>v. (v, appearances window' v)) = (\<lambda>v. (v, appearances window v))"
      using appearances_perm [OF eq] by auto
    then show "persistence window' = Inr ?p"
      using ne by (simp add: persistence_def groupby_size_concat s)
  qed
  from p d m b o show ?thesis by blast
qed

theorem persistence_counts_witness:
  "window3 \<noteq> [] \<and> persistence window3 = Inr [(7, 2), (8, 3)] \<and> appearances window3 7 = 2"
proof -
  have ne: "window3 \<noteq> []" by (simp add: window3_def)
  have "persistence window3 = Inr [(7, 2), (8, 3)]"
    by (simp add: persistence_def window3_def read_csv_def drop_duplicates_def
        groupby_size_def ev_def)
  moreover have "appearances window3 7 = 2"
    by (simp add: appearances_def window3_def read_csv_def vessels_def ev_def)
  ultimately show ?thesis using ne persistence_counts [OF ne] by simp
qed

subsection \<open>Region sets\<close>

lemma finite_regions: "finite (regions run)"
  by (simp add: regions_def)

lemma finite_vessels: "finite (vessels run)"
  by (simp add: vessels_def)



subsection \<open>First run\<close>

lemma smart_alerts_first_run: "smart_alerts True cur prev = Inr []"
  by (simp add: smart_alerts_def)

lemma previous_run_first: "previous_run rf cp (prev, True) \<Longrightarrow> prev = []"
  by (auto elim: previous_run.cases)

text \<open>
  C3. When \<^verbatim>\<open>first_run\<close> is true no alert is produced and the new-vessels button shows
  the baseline notice; with the previous run the empty frame, the set algebra still
  reports every current vessel and region as new, and the metric counts them.
\<close>

theorem first_run_suppresses_alerts:
  "smart_alerts True cur prev = Inr [] \<and>
   show_new_jammed_vessels True cur prev = Baseline_info \<and>
   (previous_run rf compare_prev (prev, True) \<longrightarrow>
      prev = [] \<and> new_vessels cur prev = vessels cur \<and> new_regions cur prev = regions cur \<and>
      resolved_regions cur prev = {} \<and>
      key_metrics cur prev = (card (vessels cur), card (vessels cur), card (regions cur)))"
proof (intro conjI impI)
  assume "previous_run rf compare_prev (prev, True)"
  then have p: "prev = []" by (rule previous_run_first)
  show "prev = []" by (rule p)
  show "new_vessels cur prev = vessels cur" by (simp add: p new_vessels_def vessels_def)
  show "new_regions cur prev = regions cur" by (simp add: p new_regions_def regions_def)
  show "resolved_regions cur prev = {}" by (simp add: p resolved_regions_def regions_def)
  show "key_metrics cur prev = (card (vessels cur), card (vessels cur), card (regions cur))"
    by (simp add: p key_metrics_def new_vessels_def vessels_def)
qed (simp_all add: smart_alerts_def show_new_jammed_vessels_def)

theorem first_run_suppresses_alerts_witness:
  "previous_run [(''runs/run_20240101_100000.csv'', cur4)] True ([], True) \<and>
   smart_alerts True cur4 [] = Inr [] \<and>
   show_new_jammed_vessels True cur4 [] = Baseline_info \<and>
   new_vessels cur4 [] = {1, 2, 4, 5} \<and>
   key_metrics cur4 [] = (4, 4, 2)"
proof -
  have p: "previous_run [(''runs/run_20240101_100000.csv'', cur4)] True ([], True)"
    by (rule previous_run.intros(2)) simp
  have v: "vessels cur4 = {1, 2, 4, 5}"
    by (auto simp: vessels_def cur4_def ev_def)
  have r: "regions cur4 = {Some ''EEZ_A'', Some ''EEZ_B''}"
    by (auto simp: regions_def cur4_def ev_def)
  from first_run_suppresses_alerts [of cur4 "[]" "[(''runs/run_20240101_100000.csv'', cur4)]" True] p
  show ?thesis by (simp add: v r)
qed

text \<open>
  C9. With the comparison switched off, or with at most one run file, the previous run
  is the empty frame and \<^verbatim>\<open>first_run\<close> is true, whatever the folder holds; no alert
  is produced and the stability metric is not computed.
\<close>

theorem compare_off_or_single_run:
  assumes "\<not> compare_prev \<or> length rf \<le> 1"
  shows "previous_run rf compare_prev ([], True) \<and>
         (\<forall>prev first_run. previous_run rf compare_prev (prev, first_run) \<longrightarrow>
            prev = [] \<and> first_run \<and> smart_alerts first_run cur prev = Inr [] \<and>
            detection_stability first_run cur prev = None)"
proof (intro conjI allI impI)
  from assms have n: "\<not> (length rf > 1 \<and> compare_prev)" by auto
  then show "previous_run rf compare_prev ([], True)" by (rule previous_run.intros(2))
  fix prev first_run assume "previous_run rf compare_prev (prev, first_run)"
  then have "prev = [] \<and> first_run" using n by (auto elim: previous_run.cases)
  then show "prev = []" "first_run" "smart_alerts first_run cur prev = Inr []"
    "detection_stability first_run cur prev = None"
    by (simp_all add: smart_alerts_def detection_stability_def)
qed

theorem compare_off_or_single_run_witness:
  "length window3 = 3 \<and> previous_run window3 False ([], True) \<and>
   smart_alerts True cur4 [] = Inr [] \<and> detection_stability True cur4 [] = None"
proof -
  have "previous_run window3 False ([], True)"
    using compare_off_or_single_run [of False window3] by simp
  with compare_off_or_single_run [of False window3 cur4] show ?thesis
    by (simp add: window3_def)
qed

subsection \<open>Detection stability\<close>

text \<open>
  C4. The stability of two runs is the share of the previous run's regions that the
  current run still has, times 100; it is 100 when the previous run has no region,
  lies between 0 and 100, and is 100 for a run against itself and against the empty
  run. It is the value shown when \<^verbatim>\<open>first_run\<close> is false.
\<close>

theorem stability_pct_range:
  "stability_pct (regions cur) (regions prev) =
     (if regions prev = {} then 100
      else real (card (regions cur \<inter> regions prev)) / real (card (regions prev)) * 100) \<and>
   0 \<le> stability_pct (regions cur) (regions prev) \<and>
   stability_pct (regions cur) (regions prev) \<le> 100 \<and>
   stability_pct (regions cur) (regions cur) = 100 \<and>
   stability_pct (regions cur) (regions []) = 100 \<and>
   detection_stability False cur prev = Some (stability_pct (regions cur) (regions prev))"
proof (intro conjI)
  show "stability_pct (regions cur) (regions prev) =
     (if regions prev = {} then 100
      else real (card (regions cur \<inter> regions prev)) / real (card (regions prev)) * 100)"
    by (simp add: stability_pct_def)
  show "0 \<le> stability_pct (regions cur) (regions prev)"
    by (simp add: stability_pct_def)
  show "stability_pct (regions cur) (regions prev) \<le> 100"
  proof (cases "regions prev = {}")
    case True
    then show ?thesis by (simp add: stability_pct_def)
  next
    case False
    then have pos: "0 < card (regions prev)"
      using finite_regions [of prev] by (simp add: card_gt_0_iff)
    have "card (regions cur \<inter> regions prev) \<le> card (regions prev)"
      by (rule card_mono) (simp_all add: finite_regions)
    then have "real (card (regions cur \<inter> regions prev)) / real (card (regions prev)) \<le> 1"
      using pos by simp
    then have "real (card (regions cur \<inter> regions prev)) / real (card (regions prev)) * 100 \<le> 1 * 100"
      by (rule mult_right_mono) simp
    then show ?thesis using False by (simp add: stability_pct_def)
  qed
  show "stability_pct (regions cur) (regions cur) = 100"
  proof (cases "regions cur = {}")
    case True
    then show ?thesis by (simp add: stability_pct_def)
  next
    case False
    then have "0 < card (regions cur)"
      using finite_regions [of cur] by (simp add: card_gt_0_iff)
    then show ?thesis using False by (simp add: stability_pct_def)
  qed
  show "stability_pct (regions cur) (regions []) = 100"
    by (simp add: stability_pct_def regions_def)
  show "detection_stability False cur prev = Some (stability_pct (regions cur) (regions prev))"
    by (simp add: detection_stability_def)
qed

theorem stability_pct_range_witness:
  "stability_pct (regions cur4) (regions prev3) = 100 \<and>
   stability_pct (regions prev3) (regions cur4) = 50"
proof -
  have c: "regions cur4 = {Some ''EEZ_A'', Some ''EEZ_B''}"
    by (auto simp: regions_def cur4_def ev_def)
  have p: "regions prev3 = {Some ''EEZ_A''}"
    by (auto simp: regions_def prev3_def ev_def)
  from stability_pct_range [of cur4 prev3] stability_pct_range [of prev3 cur4]
  show ?thesis by (simp add: c p stability_pct_def)
qed

subsection \<open>Vessel surge\<close>

text \<open>
  When the alerts are produced without error, the surge alert is among them exactly
  when the previous run has vessels and the increase exceeds 10 percent; this is so
  whenever no null region is new or resolved.
\<close>

lemma surge_alert_iff:
  "(\<exists>k. VesselSurge k \<in> set (surge_alert cur prev)) \<longleftrightarrow>
     card (vessels prev) > 0 \<and> increase_pct (card (vessels cur)) (card (vessels prev)) > 10"
proof -
  have pos: "card (vessels prev) > 0 \<longleftrightarrow> vessels prev \<noteq> {}"
    using finite_vessels [of prev] by (simp add: card_gt_0_iff)
  have "card (vessels cur) > card (vessels prev)"
    if "card (vessels prev) > 0" "increase_pct (card (vessels cur)) (card (vessels prev)) > 10"
  proof (rule ccontr)
    assume "\<not> card (vessels prev) < card (vessels cur)"
    then have "real (card (vessels cur)) - real (card (vessels prev)) \<le> 0" by simp
    then have "(real (card (vessels cur)) - real (card (vessels prev))) / real (card (vessels prev)) \<le> 0"
      using that(1) by (simp add: divide_le_0_iff)
    then have "increase_pct (card (vessels cur)) (card (vessels prev)) \<le> 0"
      unfolding increase_pct_def by (rule mult_nonpos_nonneg) simp
    with that(2) show False by simp
  qed
  then show ?thesis
    unfolding surge_alert_def using pos by auto
qed

lemma smart_alerts_surge_iff:
  assumes "smart_alerts False cur prev = Inr as"
  shows "(\<exists>k. VesselSurge k \<in> set as) \<longleftrightarrow>
     card (vessels prev) > 0 \<and> increase_pct (card (vessels cur)) (card (vessels prev)) > 10"
proof -
  from assms obtain a1 a2 where
    a1: "region_alert RegionAppeared (new_regions cur prev) = Inr a1" and
    a2: "region_alert RegionResolved (resolved_regions cur prev) = Inr a2" and
    as: "as = a1 @ a2 @ surge_alert cur prev"
    by (auto simp: smart_alerts_def split: sum.splits)
  have "\<forall>k. VesselSurge k \<notin> set a1"
    using a1 by (auto simp: region_alert_def split: if_splits sum.splits)
  moreover have "\<forall>k. VesselSurge k \<notin> set a2"
    using a2 by (auto simp: region_alert_def split: if_splits sum.splits)
  ultimately have "(\<exists>k. VesselSurge k \<in> set as) \<longleftrightarrow> (\<exists>k. VesselSurge k \<in> set (surge_alert cur prev))"
    by (auto simp: as)
  then show ?thesis by (simp add: surge_alert_iff)
qed

lemma smart_alerts_total:
  "None \<notin> new_regions cur prev \<Longrightarrow> None \<notin> resolved_regions cur prev \<Longrightarrow>
     \<exists>as. smart_alerts False cur prev = Inr as"
  by (simp add: smart_alerts_def region_alert_def join_regions_def)

lemma surge_scenario:
  "smart_alerts False cur4 prev3 = Inr [RegionAppeared {''EEZ_B''}, VesselSurge 33]"
proof -
  have vc: "vessels cur4 = {1, 2, 4, 5}" by (auto simp: vessels_def cur4_def ev_def)
  have vp: "vessels prev3 = {1, 2, 3}" by (auto simp: vessels_def prev3_def ev_def)
  have c: "regions cur4 = {Some ''EEZ_A'', Some ''EEZ_B''}"
    by (auto simp: regions_def cur4_def ev_def)
  have p: "regions prev3 = {Some ''EEZ_A''}"
    by (auto simp: regions_def prev3_def ev_def)
  have n: "new_regions cur4 prev3 = {Some ''EEZ_B''}"
    by (auto simp: new_regions_def c p)
  have r: "resolved_regions cur4 prev3 = {}"
    by (auto simp: resolved_regions_def c p)
  have s: "surge_alert cur4 prev3 = [VesselSurge 33]"
    by (simp add: surge_alert_def vc vp increase_pct_def)
  show ?thesis
    by (simp add: smart_alerts_def region_alert_def join_regions_def n r s)
qed

text \<open>
  C6 fails on the code when a null region is new: the surge condition holds (4 vessels
  after 3, 33 percent), but joining the region names raises \<^verbatim>\<open>TypeError\<close> before
  the surge is looked at, and no alert is produced.
\<close>

theorem surge_lost_on_null_region:
  "surge_alert cur4_null prev3 = [VesselSurge 33] \<and>
   smart_alerts False cur4_null prev3 = Inl TypeError"
proof -
  have vc: "vessels cur4_null = {1, 2, 4, 5}" by (auto simp: vessels_def cur4_null_def ev_def)
  have vp: "vessels prev3 = {1, 2, 3}" by (auto simp: vessels_def prev3_def ev_def)
  have c: "regions cur4_null = {Some ''EEZ_A'', None}"
    by (auto simp: regions_def cur4_null_def ev_def)
  have p: "regions prev3 = {Some ''EEZ_A''}"
    by (auto simp: regions_def prev3_def ev_def)
  have n: "new_regions cur4_null prev3 = {None}"
    by (auto simp: new_regions_def c p)
  have s: "surge_alert cur4_null prev3 = [VesselSurge 33]"
    by (simp add: surge_alert_def vc vp increase_pct_def)
  show ?thesis
    by (simp add: smart_alerts_def region_alert_def join_regions_def n s)
qed

subsection \<open>File names\<close>

lemma length_zero_pad: "length (zero_pad w n) = w"
  by (induction w n rule: zero_pad.induct) simp_all

lemma of_char_digit_char: "n < 10 \<Longrightarrow> of_char (digit_char n) = 48 + n"
  by (simp add: digit_char_def)

lemma digit_char_less: "x < 10 \<Longrightarrow> y < 10 \<Longrightarrow> digit_char x < digit_char y \<longleftrightarrow> x < y"
  by (simp add: less_char_def of_char_digit_char)

lemma digit_char_eq: "x < 10 \<Longrightarrow> y < 10 \<Longrightarrow> digit_char x = digit_char y \<longleftrightarrow> x = y"
proof -
  assume "x < 10" "y < 10"
  then have "of_char (digit_char x) = (of_char (digit_char y) :: nat) \<longleftrightarrow> x = y"
    by (simp add: of_char_digit_char)
  then show ?thesis by simp
qed

lemma append_less_same_length:
  "length a = length b \<Longrightarrow> a @ u < b @ v \<longleftrightarrow> a < b \<or> a = b \<and> u < (v :: 'a::linorder list)"
  by (induction a b rule: list_induct2) auto

lemma is_digit_digit_char: "n < 10 \<Longrightarrow> is_digit (digit_char n)"
  by (simp add: is_digit_def of_char_digit_char)

lemma zero_pad_eq:
  "n < 10 ^ w \<Longrightarrow> m < 10 ^ w \<Longrightarrow> zero_pad w n = zero_pad w m \<longleftrightarrow> n = m"
proof (induction w arbitrary: n m)
  case 0
  then show ?case by simp
next
  case (Suc w)
  have "n div 10 < 10 ^ w" "m div 10 < 10 ^ w"
    using Suc.prems by (simp_all add: less_mult_imp_div_less mult.commute)
  then have "zero_pad w (n div 10) = zero_pad w (m div 10) \<longleftrightarrow> n div 10 = m div 10"
    by (rule Suc.IH)
  moreover have "digit_char (n mod 10) = digit_char (m mod 10) \<longleftrightarrow> n mod 10 = m mod 10"
    by (rule digit_char_eq) simp_all
  moreover have "n = m \<longleftrightarrow> n div 10 = m div 10 \<and> n mod 10 = m mod 10"
    by (metis div_mult_mod_eq)
  ultimately show ?case by simp
qed

lemma zero_pad_less:
  "n < 10 ^ w \<Longrightarrow> m < 10 ^ w \<Longrightarrow> zero_pad w n < zero_pad w m \<longleftrightarrow> n < m"
proof (induction w arbitrary: n m)
  case 0
  then show ?case by simp
next
  case (Suc w)
  have b: "n div 10 < 10 ^ w" "m div 10 < 10 ^ w"
    using Suc.prems by (simp_all add: less_mult_imp_div_less mult.commute)
  have "zero_pad (Suc w) n < zero_pad (Suc w) m \<longleftrightarrow>
          zero_pad w (n div 10) < zero_pad w (m div 10) \<or>
          zero_pad w (n div 10) = zero_pad w (m div 10) \<and> digit_char (n mod 10) < digit_char (m mod 10)"
    by (simp add: append_less_same_length length_zero_pad)
  also have "\<dots> \<longleftrightarrow> n div 10 < m div 10 \<or> n div 10 = m div 10 \<and> n mod 10 < m mod 10"
    using Suc.IH [OF b] zero_pad_eq [OF b] digit_char_less [of "n mod 10" "m mod 10"] by simp
  also have "\<dots> \<longleftrightarrow> n < m"
  proof -
    have "n = 10 * (n div 10) + n mod 10" "m = 10 * (m div 10) + m mod 10" by simp_all
    moreover have "n mod 10 < 10" "m mod 10 < 10" by simp_all
    ultimately show ?thesis by linarith
  qed
  finally show ?case .
qed

lemma set_zero_pad: "c \<in> set (zero_pad w n) \<Longrightarrow> is_digit c"
  by (induction w n rule: zero_pad.induct) (auto simp: is_digit_digit_char)

lemma length_strftime: "length (strftime d) = 15"
  by (simp add: strftime_def length_zero_pad)

lemma clock_datetime_bounds:
  assumes "clock_datetime d"
  shows "year d < 10 ^ 4" "month d < 10 ^ 2" "day d < 10 ^ 2" "hour d < 10 ^ 2"
    "minute d < 10 ^ 2" "second d < 10 ^ 2"
proof -
  have "days_in_month (year d) (month d) \<le> 31"
    by (simp add: days_in_month_def)
  with assms show "year d < 10 ^ 4" "month d < 10 ^ 2" "day d < 10 ^ 2" "hour d < 10 ^ 2"
    "minute d < 10 ^ 2" "second d < 10 ^ 2"
    by (simp_all add: clock_datetime_def is_datetime_def)
qed

lemma strftime_less:
  assumes "clock_datetime d1" "clock_datetime d2"
  shows "strftime d1 < strftime d2 \<longleftrightarrow> dt_tuple d1 < dt_tuple d2"
  using clock_datetime_bounds [OF assms(1)] clock_datetime_bounds [OF assms(2)]
  by (simp add: strftime_def dt_tuple_def append_less_same_length length_zero_pad
      zero_pad_less zero_pad_eq less_prod_def) auto

lemma strftime_eq:
  assumes "clock_datetime d1" "clock_datetime d2"
  shows "strftime d1 = strftime d2 \<longleftrightarrow> d1 = d2"
  using clock_datetime_bounds [OF assms(1)] clock_datetime_bounds [OF assms(2)]
  by (auto simp: strftime_def length_zero_pad zero_pad_eq datetime.equality)


lemma run_filename_less:
  assumes "clock_datetime d1" "clock_datetime d2"
  shows "run_filename d1 < run_filename d2 \<longleftrightarrow> dt_tuple d1 < dt_tuple d2"
proof -
  have "run_filename d1 < run_filename d2 \<longleftrightarrow> strftime d1 @ ''.csv'' < strftime d2 @ ''.csv''"
    by (simp add: run_filename_def path_join_def RUN_FOLDER_def)
  also have "\<dots> \<longleftrightarrow> strftime d1 < strftime d2"
    by (simp add: append_less_same_length length_strftime)
  finally show ?thesis by (simp add: strftime_less [OF assms])
qed

lemma run_filename_eq:
  assumes "clock_datetime d1" "clock_datetime d2"
  shows "run_filename d1 = run_filename d2 \<longleftrightarrow> d1 = d2"
  by (simp add: run_filename_def path_join_def RUN_FOLDER_def strftime_eq [OF assms])

lemma dt_tuple_eq: "dt_tuple d1 = dt_tuple d2 \<longleftrightarrow> d1 = (d2 :: datetime)"
  by (auto simp: dt_tuple_def datetime.equality)

lemma run_filename_le:
  assumes "clock_datetime d1" "clock_datetime d2"
  shows "run_filename d1 \<le> run_filename d2 \<longleftrightarrow> dt_tuple d1 \<le> dt_tuple d2"
  using run_filename_less [OF assms] run_filename_eq [OF assms] dt_tuple_eq [of d1 d2]
  by (simp add: le_less)

lemma is_digit_chars: "is_digit c \<Longrightarrow> c \<noteq> CHR ''/'' \<and> c \<noteq> CHR ''r'' \<and> c \<noteq> CHR ''.''"
  by (auto simp: is_digit_def)

lemma set_strftime: "c \<in> set (strftime d) \<Longrightarrow> is_digit c \<or> c = CHR ''_''"
  by (auto simp: strftime_def dest: set_zero_pad)

lemma strftime_chars:
  "CHR ''/'' \<notin> set (strftime d)" "CHR ''r'' \<notin> set (strftime d)" "CHR ''.'' \<notin> set (strftime d)"
  using set_strftime [of _ d] is_digit_chars by fastforce+

lemma glob_match_run_filename: "glob_match (run_filename d)"
  using strftime_chars(1) [of d]
  by (simp add: glob_match_def run_filename_def path_join_def RUN_FOLDER_def suffix_def)

lemma basename_run_filename: "basename (run_filename d) = ''run_'' @ strftime d @ ''.csv''"
proof -
  let ?t = "''run_'' @ strftime d @ ''.csv''"
  have "rev (run_filename d) = rev ?t @ CHR ''/'' # rev ''runs''"
    by (simp add: run_filename_def path_join_def RUN_FOLDER_def)
  moreover have "\<forall>c\<in>set (rev ?t). c \<noteq> CHR ''/''"
    using strftime_chars(1) [of d] by auto
  moreover have "takeWhile (\<lambda>c. c \<noteq> CHR ''/'') (rev ?t @ CHR ''/'' # rev ''runs'')
      = rev ?t @ takeWhile (\<lambda>c. c \<noteq> CHR ''/'') (CHR ''/'' # rev ''runs'')"
    by (rule takeWhile_append2) (use strftime_chars(1) [of d] in auto)
  ultimately have "takeWhile (\<lambda>c. c \<noteq> CHR ''/'') (rev (run_filename d)) = rev ?t"
    by simp
  then show ?thesis
    unfolding basename_def by (simp only: rev_rev_ident)
qed

lemma str_replace_absent:
  "c \<notin> set s \<Longrightarrow> str_replace (c # cs) new s = s"
  by (induction s) (auto simp: prefix_def)

lemma str_replace_at_end:
  "c \<notin> set s \<Longrightarrow> str_replace (c # cs) new (s @ c # cs) = s @ new"
proof (induction s)
  case Nil
  show ?case by simp
next
  case (Cons x s)
  then have "\<not> prefix (c # cs) (x # s @ c # cs)"
    by (auto simp: prefix_def)
  with Cons show ?case by simp
qed

lemma run_time_text: "str_replace ''.csv'' [] (str_replace ''run_'' [] (basename (run_filename d))) = strftime d"
proof -
  have "str_replace ''run_'' [] (basename (run_filename d)) = str_replace ''run_'' [] (strftime d @ ''.csv'')"
    by (simp add: basename_run_filename)
  also have "\<dots> = strftime d @ ''.csv''"
    by (rule str_replace_absent) (simp add: strftime_chars)
  finally show ?thesis
    using str_replace_at_end [of "CHR ''.''" "strftime d" "''csv''" "[]"]
    by (simp add: strftime_chars)
qed

lemma foldl_zero_pad:
  "foldl (\<lambda>a c. 10 * a + (of_char c - 48)) 0 (zero_pad w n) = n mod 10 ^ w"
proof (induction w arbitrary: n)
  case 0
  show ?case by simp
next
  case (Suc w)
  have "n mod 10 ^ Suc w = 10 * (n div 10 mod 10 ^ w) + n mod 10"
    by (simp add: mod_mult2_eq)
  then show ?case
    by (simp add: Suc.IH of_char_digit_char)
qed

lemma number_of_zero_pad: "0 < w \<Longrightarrow> n < 10 ^ w \<Longrightarrow> number_of (zero_pad w n) = Some n"
proof -
  assume w: "0 < w" and n: "n < 10 ^ w"
  have "zero_pad w n \<noteq> []"
    using w length_zero_pad [of w n] by auto
  moreover have "list_all is_digit (zero_pad w n)"
    by (simp add: list_all_iff set_zero_pad)
  ultimately show ?thesis
    using n by (simp add: number_of_def foldl_zero_pad)
qed

lemma strptime_strftime:
  assumes "clock_datetime d"
  shows "strptime (strftime d) = Inr d"
proof -
  note b = clock_datetime_bounds [OF assms]
  let ?s = "strftime d"
  have f: "take 4 ?s = zero_pad 4 (year d)" "take 2 (drop 4 ?s) = zero_pad 2 (month d)"
    "take 2 (drop 6 ?s) = zero_pad 2 (day d)" "take 2 (drop 9 ?s) = zero_pad 2 (hour d)"
    "take 2 (drop 11 ?s) = zero_pad 2 (minute d)" "take 2 (drop 13 ?s) = zero_pad 2 (second d)"
    by (simp_all add: strftime_def length_zero_pad)
  have u: "?s ! 8 = CHR ''_''"
    by (simp add: strftime_def nth_append length_zero_pad)
  have n: "number_of (zero_pad 4 (year d)) = Some (year d)"
    "number_of (zero_pad 2 (month d)) = Some (month d)"
    "number_of (zero_pad 2 (day d)) = Some (day d)"
    "number_of (zero_pad 2 (hour d)) = Some (hour d)"
    "number_of (zero_pad 2 (minute d)) = Some (minute d)"
    "number_of (zero_pad 2 (second d)) = Some (second d)"
    using b by (simp_all add: number_of_zero_pad)
  have r: "\<lparr>year = year d, month = month d, day = day d, hour = hour d, minute = minute d,
            second = second d\<rparr> = d"
    by simp
  have v: "is_datetime d" using assms by (simp add: clock_datetime_def)
  show ?thesis
    unfolding strptime_def by (simp only: f u length_strftime) (simp add: r v n)
qed

lemma run_time_of_run_filename: "clock_datetime d \<Longrightarrow> run_time_of (run_filename d) = Inr d"
  by (simp add: run_time_of_def run_time_text strptime_strftime)


subsection \<open>Listing the run files\<close>

lemma saved_times:
  assumes "saved_by_save_run folder"
  shows "\<exists>g. \<forall>f\<in>set folder.
           clock_datetime (g f) \<and> fst f = run_filename (g f) \<and> run_time_of (fst f) = Inr (g f)"
proof -
  from assms have "\<forall>f\<in>set folder. \<exists>d. clock_datetime d \<and> fst f = run_filename d"
    by (simp add: saved_by_save_run_def)
  then obtain g where g: "\<forall>f\<in>set folder. clock_datetime (g f) \<and> fst f = run_filename (g f)"
    by (rule bchoice [THEN exE])
  then have "\<forall>f\<in>set folder.
           clock_datetime (g f) \<and> fst f = run_filename (g f) \<and> run_time_of (fst f) = Inr (g f)"
    by (simp add: run_time_of_run_filename)
  then show ?thesis by (intro exI [of _ g])
qed

lemma run_files_all:
  assumes "saved_by_save_run folder"
  shows "mset (run_files folder) = mset folder"
proof -
  have "\<forall>f\<in>set folder. glob_match (fst f)"
    using assms glob_match_run_filename by (fastforce simp: saved_by_save_run_def)
  then have "filter (\<lambda>f. glob_match (fst f)) folder = folder"
    by (simp add: filter_id_conv)
  then show ?thesis by (simp add: run_files_def)
qed

lemma sorted_run_files: "sorted (map fst (run_files folder))"
  by (simp add: run_files_def)

lemma run_files_empty: "run_files [] = []"
  by (simp add: run_files_def)

lemma last_n_split: "0 < n \<Longrightarrow> take (length xs - n) xs @ last_n n xs = xs"
  by (simp add: last_n_def)

lemma sample_clock_datetime: "clock_datetime t10" "clock_datetime t11" "clock_datetime t12"
  by (simp_all add: clock_datetime_def is_datetime_def days_in_month_def is_leap_def t10_def t11_def t12_def)

lemma sample_names:
  "run_filename t10 = ''runs/run_20240101_100000.csv''"
  "run_filename t11 = ''runs/run_20240101_110000.csv''"
  "run_filename t12 = ''runs/run_20240101_120000.csv''"
  by code_simp+

lemma sample_saved: "saved_by_save_run (rev window3)"
  unfolding saved_by_save_run_def window3_def
  using sample_clock_datetime sample_names by (auto simp del: rev.simps)

lemma sample_distinct: "distinct (map fst (rev window3))"
  by (simp add: window3_def)


text \<open>
  C8. The name \<^verbatim>\<open>save_run\<close> gives a file embeds the save time in fifteen characters,
  and for two clock readings the names compare as the readings do. The sorted listing
  of an empty folder is empty; the listing of a folder of saved runs holds all its
  files, ascending by name and so by the embedded time that the trend reads back, and
  every file among its last \<open>n\<close> is at least as late as every file before them.
\<close>

theorem run_files_chronological:
  "(clock_datetime d1 \<and> clock_datetime d2 \<longrightarrow>
      length (strftime d1) = 15 \<and> length (strftime d2) = 15 \<and>
      (run_filename d1 \<le> run_filename d2 \<longleftrightarrow> dt_tuple d1 \<le> dt_tuple d2) \<and>
      (run_filename d1 < run_filename d2 \<longleftrightarrow> dt_tuple d1 < dt_tuple d2)) \<and>
   fst (save_run now df folder) = run_filename now \<and>
   run_files ([] :: 'a run_file list) = [] \<and>
   sorted (map fst (run_files folder)) \<and>
   (saved_by_save_run folder \<longrightarrow>
      mset (run_files folder) = mset folder \<and>
      (\<exists>ds. map fst (run_files folder) = map run_filename ds \<and>
            map (\<lambda>f. run_time_of (fst f)) (run_files folder) = map Inr ds \<and>
            sorted (map dt_tuple ds)) \<and>
      (\<forall>n>0. \<forall>a\<in>set (take (length (run_files folder) - n) (run_files folder)).
          \<forall>b\<in>set (last_n n (run_files folder)).
            fst a \<le> fst b \<and>
            (\<exists>da db. run_time_of (fst a) = Inr da \<and> run_time_of (fst b) = Inr db \<and>
                     dt_tuple da \<le> dt_tuple db)))"
proof (intro conjI impI)
  assume "clock_datetime d1 \<and> clock_datetime d2"
  then have r: "clock_datetime d1" "clock_datetime d2" by simp_all
  show "length (strftime d1) = 15" "length (strftime d2) = 15" by (rule length_strftime)+
  show "run_filename d1 \<le> run_filename d2 \<longleftrightarrow> dt_tuple d1 \<le> dt_tuple d2"
    by (rule run_filename_le [OF r])
  show "run_filename d1 < run_filename d2 \<longleftrightarrow> dt_tuple d1 < dt_tuple d2"
    by (rule run_filename_less [OF r])
next
  show "fst (save_run now df folder) = run_filename now"
    by (simp add: save_run_def Let_def)
  show "run_files ([] :: 'a run_file list) = []" by (rule run_files_empty)
  show s: "sorted (map fst (run_files folder))" by (rule sorted_run_files)
next
  assume saved: "saved_by_save_run folder"
  show all: "mset (run_files folder) = mset folder" by (rule run_files_all [OF saved])
  then have set_eq: "set (run_files folder) = set folder" by (metis set_mset_mset)
  obtain g where g: "\<And>f. f \<in> set folder \<Longrightarrow> clock_datetime (g f)"
    "\<And>f. f \<in> set folder \<Longrightarrow> fst f = run_filename (g f)"
    "\<And>f. f \<in> set folder \<Longrightarrow> run_time_of (fst f) = Inr (g f)"
    using saved_times [OF saved] by blast
  have le: "fst a \<le> fst b \<longleftrightarrow> dt_tuple (g a) \<le> dt_tuple (g b)"
    if "a \<in> set folder" "b \<in> set folder" for a b
    using that g(1,2) run_filename_le [of "g a" "g b"] by simp
  show "\<exists>ds. map fst (run_files folder) = map run_filename ds \<and>
            map (\<lambda>f. run_time_of (fst f)) (run_files folder) = map Inr ds \<and>
            sorted (map dt_tuple ds)"
  proof (intro exI conjI)
    show "map fst (run_files folder) = map run_filename (map g (run_files folder))"
      using g(2) by (simp add: set_eq)
    show "map (\<lambda>f. run_time_of (fst f)) (run_files folder) = map Inr (map g (run_files folder))"
      using g(3) by (simp add: set_eq)
    have "sorted_wrt (\<lambda>a b. fst a \<le> fst b) (run_files folder)"
      using sorted_run_files [of folder] by (simp add: sorted_map)
    then have "sorted_wrt (\<lambda>a b. dt_tuple (g a) \<le> dt_tuple (g b)) (run_files folder)"
      by (rule sorted_wrt_mono_rel [rotated]) (simp add: le set_eq)
    then show "sorted (map dt_tuple (map g (run_files folder)))"
      by (simp add: sorted_map)
  qed
  show "\<forall>n>0. \<forall>a\<in>set (take (length (run_files folder) - n) (run_files folder)).
          \<forall>b\<in>set (last_n n (run_files folder)).
            fst a \<le> fst b \<and>
            (\<exists>da db. run_time_of (fst a) = Inr da \<and> run_time_of (fst b) = Inr db \<and>
                     dt_tuple da \<le> dt_tuple db)"
  proof (intro allI impI ballI)
    fix n :: nat and a b
    assume n: "0 < n"
      and a: "a \<in> set (take (length (run_files folder) - n) (run_files folder))"
      and b: "b \<in> set (last_n n (run_files folder))"
    let ?rf = "run_files folder"
    have "sorted (map fst (take (length ?rf - n) ?rf @ last_n n ?rf))"
      using sorted_run_files [of folder] by (simp only: last_n_split [OF n])
    then have ab: "fst a \<le> fst b"
      using a b by (simp add: sorted_append)
    have "a \<in> set ?rf" using a by (rule in_set_takeD)
    then have a': "a \<in> set folder" by (simp add: set_eq)
    have "b \<in> set ?rf" using b n by (auto simp: last_n_def dest: in_set_dropD)
    then have b': "b \<in> set folder" by (simp add: set_eq)
    have "dt_tuple (g a) \<le> dt_tuple (g b)" using ab le [OF a' b'] by simp
    with ab g(3) [OF a'] g(3) [OF b']
    show "fst a \<le> fst b \<and>
            (\<exists>da db. run_time_of (fst a) = Inr da \<and> run_time_of (fst b) = Inr db \<and>
                     dt_tuple da \<le> dt_tuple db)"
      by blast
  qed
qed

lemma sample_run_files: "run_files (rev window3) = window3"
  by code_simp

theorem run_files_chronological_witness:
  "clock_datetime t10 \<and> clock_datetime t11 \<and> dt_tuple t10 < dt_tuple t11 \<and>
   run_filename t10 < run_filename t11 \<and>
   saved_by_save_run (rev window3) \<and> run_files (rev window3) = window3 \<and>
   mset (run_files (rev window3)) = mset (rev window3) \<and>
   map fst (last_n 2 (run_files (rev window3))) = [run_filename t11, run_filename t12]"
proof -
  have lt: "dt_tuple t10 < dt_tuple t11"
    by (simp add: dt_tuple_def t10_def t11_def)
  have tl: "map fst (last_n 2 window3) = [run_filename t11, run_filename t12]"
    by (simp add: sample_names last_n_def window3_def)
  have "run_filename t10 < run_filename t11 \<and> mset (run_files (rev window3)) = mset (rev window3)"
    using run_files_chronological [of t10 t11 t10 "[]" "rev window3"]
      sample_clock_datetime sample_saved lt by blast
  with sample_clock_datetime sample_saved lt tl show ?thesis
    by (simp only: sample_run_files)
qed

subsection \<open>Trend\<close>

lemma trend_data_map:
  "(\<And>f. f \<in> set w \<Longrightarrow> run_time_of (fst f) = Inr (g f)) \<Longrightarrow>
     trend_data w = Inr (map (\<lambda>f. \<lparr>run_time = g f, jammed_vessels = length (drop_duplicates (read_csv f))\<rparr>) w)"
  by (induction w) simp_all

lemma filter_key_distinct:
  "distinct (map k xs) \<Longrightarrow> x \<in> set xs \<Longrightarrow> filter (\<lambda>y. k x = k y) xs = [x]"
proof (induction xs)
  case Nil
  then show ?case by simp
next
  case (Cons a xs)
  show ?case
  proof (cases "x = a")
    case True
    have "filter (\<lambda>y. k a = k y) xs = []"
      using Cons.prems(1) by (auto simp: filter_empty_conv)
    with True show ?thesis by simp
  next
    case False
    with Cons.prems have x: "x \<in> set xs" by simp
    then have "k x \<in> k ` set xs" by (rule imageI)
    moreover have "k a \<notin> k ` set xs" using Cons.prems(1) by simp
    ultimately have "k x \<noteq> k a" by metis
    with Cons x show ?thesis by simp
  qed
qed

lemma sort_values_unique:
  assumes "sort_values k ps out" and "distinct (map k ps)"
  shows "out = sort_key k ps"
proof -
  from assms(1) have m: "mset out = mset ps" and s: "sorted (map k out)"
    by (simp_all add: sort_values_def)
  from m have "mset (map k out) = mset (map k ps)" by simp
  with assms(2) have d: "distinct (map k out)" by (metis mset_eq_imp_distinct_iff)
  have set_eq: "set out = set ps" using m by (metis set_mset_mset)
  have "sort_key k ps = out"
  proof (rule properties_for_sort_key [OF m _ s])
    fix x assume "x \<in> set out"
    then show "filter (\<lambda>y. k x = k y) out = filter (\<lambda>y. k x = k y) ps"
      using filter_key_distinct [OF d] filter_key_distinct [OF assms(2)] set_eq by simp
  qed
  then show ?thesis by simp
qed

lemma trend_keys_distinct:
  assumes "distinct (map fst w)" and "\<And>f. f \<in> set w \<Longrightarrow> fst f = run_filename (g f)"
  shows "distinct (map (\<lambda>p. dt_tuple (run_time p)) (map (\<lambda>f. \<lparr>run_time = g f, jammed_vessels = length (drop_duplicates (read_csv f))\<rparr>) w))"
proof -
  have "map fst w = map run_filename (map g w)"
    using assms(2) by simp
  with assms(1) have "distinct (map run_filename (map g w))" by simp
  then have "distinct (map g w)" by (rule distinct_map [THEN iffD1, THEN conjunct1])
  moreover have "inj dt_tuple" by (rule injI) (simp add: dt_tuple_eq)
  ultimately have "distinct (map dt_tuple (map g w))"
    by (metis distinct_map inj_on_subset subset_UNIV)
  then show ?thesis by (simp add: comp_def)
qed

text \<open>
  C7. For a non-empty window of saved run files with pairwise different names, the
  trend table exists and is unique: it has one point per file, with the file's save
  time and the number of its distinct vessels, ascending by save time; and every
  reordering of the window, the sorted one among them, gives the same table.
\<close>

theorem trend_sorted_and_order_independent:
  assumes "saved_by_save_run w" and "distinct (map fst w)" and "w \<noteq> []"
  shows "\<exists>out ps.
           trend_df w (Inr out) \<and> (\<forall>res. trend_df w res \<longrightarrow> res = Inr out) \<and>
           trend_data w = Inr ps \<and> mset out = mset ps \<and> length out = length w \<and>
           map jammed_vessels ps = map (\<lambda>f. length (drop_duplicates (read_csv f))) w \<and>
           map (\<lambda>p. Inr (run_time p)) ps = map (\<lambda>f. run_time_of (fst f)) w \<and>
           sorted (map (\<lambda>p. dt_tuple (run_time p)) out) \<and>
           (\<forall>w'. mset w' = mset w \<longrightarrow>
              trend_df w' (Inr out) \<and> (\<forall>res. trend_df w' res \<longrightarrow> res = Inr out))"
proof -
  let ?k = "\<lambda>p. dt_tuple (run_time p)"
  obtain g where g: "\<And>f. f \<in> set w \<Longrightarrow> clock_datetime (g f)"
    "\<And>f. f \<in> set w \<Longrightarrow> fst f = run_filename (g f)"
    "\<And>f. f \<in> set w \<Longrightarrow> run_time_of (fst f) = Inr (g f)"
    using saved_times [OF assms(1)] by blast
  let ?ps = "map (\<lambda>f. \<lparr>run_time = g f, jammed_vessels = length (drop_duplicates (read_csv f))\<rparr>) w"
  let ?out = "sort_key ?k ?ps"
  have td: "trend_data w = Inr ?ps" using g(3) by (rule trend_data_map)
  have dk: "distinct (map ?k ?ps)" using assms(2) g(2) by (rule trend_keys_distinct)
  have perm: "trend_df w' (Inr ?out) \<and> (\<forall>res. trend_df w' res \<longrightarrow> res = Inr ?out)"
    if eq: "mset w' = mset w" for w'
  proof -
    have set_eq: "set w' = set w" using eq by (metis set_mset_mset)
    have ne: "w' \<noteq> []" using eq assms(3) by auto
    let ?ps' = "map (\<lambda>f. \<lparr>run_time = g f, jammed_vessels = length (drop_duplicates (read_csv f))\<rparr>) w'"
    have td': "trend_data w' = Inr ?ps'"
      using g(3) by (intro trend_data_map) (simp add: set_eq)
    have mp: "mset ?ps' = mset ?ps" using eq by simp
    have sv: "sort_values ?k ?ps' out \<longleftrightarrow> out = ?out" for out
    proof
      assume "sort_values ?k ?ps' out"
      then have "sort_values ?k ?ps out" using mp by (simp add: sort_values_def)
      then show "out = ?out" using dk by (rule sort_values_unique)
    next
      assume "out = ?out"
      then show "sort_values ?k ?ps' out" using mp by (simp add: sort_values_def)
    qed
    have "trend_df w' (Inr ?out)"
      using td' ne sv [of ?out] by (intro trend_df.intros(3) [of w' ?ps']) simp_all
    moreover have "res = Inr ?out" if "trend_df w' res" for res
      using that
    proof cases
      case (1 e)
      with td' show ?thesis by simp
    next
      case 2
      with td' ne show ?thesis by simp
    next
      case (3 ps out)
      with td' have "sort_values ?k ?ps' out" by simp
      with sv 3 show ?thesis by simp
    qed
    ultimately show ?thesis by blast
  qed
  have self: "trend_df w (Inr ?out) \<and> (\<forall>res. trend_df w res \<longrightarrow> res = Inr ?out)"
    by (rule perm) simp
  have all: "\<forall>w'. mset w' = mset w \<longrightarrow>
              trend_df w' (Inr ?out) \<and> (\<forall>res. trend_df w' res \<longrightarrow> res = Inr ?out)"
    using perm by blast
  have jv: "map jammed_vessels ?ps = map (\<lambda>f. length (drop_duplicates (read_csv f))) w"
    by simp
  have rt: "map (\<lambda>p. Inr (run_time p)) ?ps = map (\<lambda>f. run_time_of (fst f)) w"
    using g(3) by simp
  have so: "mset ?out = mset ?ps" "length ?out = length w" "sorted (map ?k ?out)"
    by simp_all
  show ?thesis
    by (intro exI [of _ ?out] exI [of _ ?ps] conjI self [THEN conjunct1] self [THEN conjunct2]
        td so jv rt all)
qed

theorem trend_sorted_and_order_independent_witness:
  "saved_by_save_run (rev window3) \<and> distinct (map fst (rev window3)) \<and>
   trend_df (rev window3)
     (Inr [\<lparr>run_time = t10, jammed_vessels = 2\<rparr>, \<lparr>run_time = t11, jammed_vessels = 1\<rparr>,
           \<lparr>run_time = t12, jammed_vessels = 2\<rparr>]) \<and>
   trend_df window3
     (Inr [\<lparr>run_time = t10, jammed_vessels = 2\<rparr>, \<lparr>run_time = t11, jammed_vessels = 1\<rparr>,
           \<lparr>run_time = t12, jammed_vessels = 2\<rparr>])"
proof -
  let ?p10 = "\<lparr>run_time = t10, jammed_vessels = 2\<rparr>"
  let ?p11 = "\<lparr>run_time = t11, jammed_vessels = 1\<rparr>"
  let ?p12 = "\<lparr>run_time = t12, jammed_vessels = 2\<rparr>"
  have td: "trend_data (rev window3) = Inr [?p12, ?p11, ?p10]"
    by code_simp
  have sv: "sort_values (\<lambda>p. dt_tuple (run_time p)) [?p12, ?p11, ?p10] [?p10, ?p11, ?p12]"
    by (simp add: sort_values_def dt_tuple_def t10_def t11_def t12_def)
  have direct: "trend_df (rev window3) (Inr [?p10, ?p11, ?p12])"
    using td _ sv by (rule trend_df.intros(3)) simp
  have ne: "rev window3 \<noteq> []" by (simp add: window3_def)
  from trend_sorted_and_order_independent [OF sample_saved sample_distinct ne]
  obtain out where u: "\<forall>res. trend_df (rev window3) res \<longrightarrow> res = Inr out"
    and p: "\<forall>w'. mset w' = mset (rev window3) \<longrightarrow> trend_df w' (Inr out)"
    by blast
  from u direct have "out = [?p10, ?p11, ?p12]" by blast
  moreover from p have "trend_df window3 (Inr out)" by simp
  ultimately show ?thesis using direct sample_saved sample_distinct by simp
qed

subsection \<open>The windows the script builds\<close>

text \<open>
  The persistence and trend windows are the last files of the sorted listing. For a
  non-empty folder of saved runs they are non-empty and inherit what the trend
  theorem asks of a window.
\<close>

lemma set_last_n: "set (last_n n xs) \<subseteq> set xs"
  by (auto simp: last_n_def dest: in_set_dropD)

lemma last_n_nonempty: "xs \<noteq> [] \<Longrightarrow> last_n n xs \<noteq> []"
  by (cases xs) (auto simp: last_n_def)

lemma distinct_last_n: "distinct (map f xs) \<Longrightarrow> distinct (map f (last_n n xs))"
proof -
  have "map f (last_n n xs) = last_n n (map f xs)"
    by (simp add: last_n_def drop_map)
  moreover assume "distinct (map f xs)"
  ultimately show ?thesis by (simp add: last_n_def distinct_drop)
qed

lemma trend_window_wellformed:
  assumes "saved_by_save_run folder" and "distinct (map fst folder)" and "folder \<noteq> []"
  shows "saved_by_save_run (trend_runs n (run_files folder)) \<and>
         distinct (map fst (trend_runs n (run_files folder))) \<and>
         trend_runs n (run_files folder) \<noteq> []"
proof -
  have m: "mset (run_files folder) = mset folder" by (rule run_files_all [OF assms(1)])
  then have s: "set (run_files folder) = set folder" by (metis set_mset_mset)
  have "mset (map fst (run_files folder)) = mset (map fst folder)" using m by simp
  then have d: "distinct (map fst (run_files folder))"
    using assms(2) by (metis mset_eq_imp_distinct_iff)
  have ne: "run_files folder \<noteq> []" using m assms(3) by auto
  have "set (trend_runs n (run_files folder)) \<subseteq> set folder"
    using set_last_n [of "min n (length (run_files folder))" "run_files folder"]
    by (simp add: trend_runs_def s)
  then have "saved_by_save_run (trend_runs n (run_files folder))"
    using assms(1) unfolding saved_by_save_run_def by (meson subsetD)
  with d ne show ?thesis
    by (simp add: trend_runs_def distinct_last_n last_n_nonempty)
qed

lemma event_persistence_total:
  "rf \<noteq> [] \<Longrightarrow> \<exists>p. event_persistence n rf = Inr p"
  by (simp add: event_persistence_def persistence_def last_n_nonempty)

end
